theory Spec2Isabelle
  imports Complex_Main
begin

section \<open>Values of the settings documents\<close>

text \<open>
  The documents that \<^verbatim>\<open>diff-settings.py\<close> compares are what Python's \<^verbatim>\<open>json.loads\<close>
  returns: \<^verbatim>\<open>None\<close>, \<^verbatim>\<open>bool\<close>, \<^verbatim>\<open>int\<close>, \<^verbatim>\<open>float\<close>, \<^verbatim>\<open>str\<close>, \<^verbatim>\<open>list\<close> and \<^verbatim>\<open>dict\<close> with string
  keys. A \<^verbatim>\<open>dict\<close> keeps its keys in insertion order, so it is an association list; that its
  keys are pairwise different is the predicate \<open>wf_json\<close> below. A finite \<^verbatim>\<open>float\<close> is
  carried as the rational number it denotes (Python compares \<^verbatim>\<open>int\<close> and \<^verbatim>\<open>float\<close> by their exact
  values). \<^verbatim>\<open>json.loads\<close> also reads \<^verbatim>\<open>Infinity\<close>, \<^verbatim>\<open>-Infinity\<close> and \<^verbatim>\<open>NaN\<close>, and a number too
  large for a \<^verbatim>\<open>float\<close> as an infinity.
\<close>

datatype pyfloat = Finite rat | PosInf | NegInf | NaN

datatype json =
    JNull
  | JBool bool
  | JInt int
  | JFloat pyfloat
  | JStr string
  | JArr "json list"
  | JObj "(string \<times> json) list"

type_synonym dict = "(string \<times> json) list"

text \<open>The exceptions that reach the models: \<^verbatim>\<open>TypeError\<close> is raised by the membership test of
  \<^verbatim>\<open>find_orphaned\<close>, the other two by reading and parsing a file.\<close>

datatype error = TypeError | JSONDecodeError | OSError

fun wf_json :: "json \<Rightarrow> bool"
and wf_list :: "json list \<Rightarrow> bool"
and wf_items :: "dict \<Rightarrow> bool" where
  "wf_json (JArr xs) = wf_list xs"
| "wf_json (JObj items) = (distinct (map fst items) \<and> wf_items items)"
| "wf_json JNull = True"
| "wf_json (JBool b) = True"
| "wf_json (JInt i) = True"
| "wf_json (JFloat r) = True"
| "wf_json (JStr s) = True"
| "wf_list [] = True"
| "wf_list (x # xs) = (wf_json x \<and> wf_list xs)"
| "wf_items [] = True"
| "wf_items (kv # rest) = (wf_json (snd kv) \<and> wf_items rest)"

subsection \<open>Python's equality and membership on these values\<close>

text \<open>\<^verbatim>\<open>bool\<close> is a subclass of \<^verbatim>\<open>int\<close>, and numbers of different types are equal when their
  values are: \<^verbatim>\<open>True == 1\<close> and \<^verbatim>\<open>1 == 1.0\<close>.\<close>

fun num_val :: "json \<Rightarrow> rat option" where
  "num_val (JBool b) = Some (if b then 1 else 0)"
| "num_val (JInt i) = Some (of_int i)"
| "num_val (JFloat (Finite r)) = Some r"
| "num_val _ = None"

text \<open>The comparison that \<^verbatim>\<open>in\<close> makes between an element of a list and the value looked for,
  and that \<^verbatim>\<open>==\<close> makes between the elements of two lists and the values of two dicts: the two
  are the same object, or \<^verbatim>\<open>x == y\<close>. Two lists are equal when they have the same length and
  equal elements; two dicts when they have the same number of keys and every key of the first is
  a key of the second with an equal value (the order of the keys does not matter). An infinity
  is equal to itself and to no other number. \<^verbatim>\<open>NaN == NaN\<close> is false, but every \<^verbatim>\<open>NaN\<close> of a
  document is the one object that the decoder of \<^verbatim>\<open>json\<close> holds for it, so this comparison
  finds \<^verbatim>\<open>NaN\<close> equal to \<^verbatim>\<open>NaN\<close>, and to nothing else.\<close>

fun py_eq :: "json \<Rightarrow> json \<Rightarrow> bool"
and py_eq_list :: "json list \<Rightarrow> json list \<Rightarrow> bool"
and py_items_in :: "dict \<Rightarrow> dict \<Rightarrow> bool" where
  "py_eq JNull y = (y = JNull)"
| "py_eq (JBool b) y = (num_val y = Some (if b then 1 else 0))"
| "py_eq (JInt i) y = (num_val y = Some (of_int i))"
| "py_eq (JFloat f) y = (case f of Finite r \<Rightarrow> num_val y = Some r | _ \<Rightarrow> y = JFloat f)"
| "py_eq (JStr s) y = (y = JStr s)"
| "py_eq (JArr xs) y = (case y of JArr ys \<Rightarrow> py_eq_list xs ys | _ \<Rightarrow> False)"
| "py_eq (JObj a) y =
     (case y of JObj b \<Rightarrow> length a = length b \<and> py_items_in a b | _ \<Rightarrow> False)"
| "py_eq_list [] ys = (ys = [])"
| "py_eq_list (x # xs) ys =
     (case ys of [] \<Rightarrow> False | y # ys' \<Rightarrow> py_eq x y \<and> py_eq_list xs ys')"
| "py_items_in [] b = True"
| "py_items_in (kv # rest) b =
     ((case map_of b (fst kv) of None \<Rightarrow> False | Some w \<Rightarrow> py_eq (snd kv) w)
      \<and> py_items_in rest b)"

text \<open>\<^verbatim>\<open>t in s\<close> for two strings: \<open>t\<close> occurs in \<open>s\<close> as a contiguous piece.\<close>

fun is_substring :: "string \<Rightarrow> string \<Rightarrow> bool" where
  "is_substring t [] = (t = [])"
| "is_substring t (c # s) = (take (length t) (c # s) = t \<or> is_substring t s)"

text \<open>\<^verbatim>\<open>elem in container\<close>. A list is searched with \<^verbatim>\<open>==\<close>; a string accepts only a string on
  the left; a dict looks the element up among its keys, which hashes it, and lists and dicts are
  not hashable; every other value is not a container at all.\<close>

fun py_in :: "json \<Rightarrow> json \<Rightarrow> error + bool" where
  "py_in elem (JArr xs) = Inr (list_ex (\<lambda>x. py_eq x elem) xs)"
| "py_in elem (JStr s) = (case elem of JStr t \<Rightarrow> Inr (is_substring t s) | _ \<Rightarrow> Inl TypeError)"
| "py_in elem (JObj items) =
     (case elem of
        JArr _ \<Rightarrow> Inl TypeError
      | JObj _ \<Rightarrow> Inl TypeError
      | JStr k \<Rightarrow> Inr (k \<in> set (map fst items))
      | _ \<Rightarrow> Inr False)"
| "py_in elem _ = Inl TypeError"

subsection \<open>Operations on dicts\<close>

text \<open>\<^verbatim>\<open>key in d if isinstance(d, dict) else False\<close>\<close>

definition has_key :: "json \<Rightarrow> string \<Rightarrow> bool" where
  "has_key d key = (case d of JObj items \<Rightarrow> key \<in> set (map fst items) | _ \<Rightarrow> False)"

text \<open>\<^verbatim>\<open>d.get(key, default) if isinstance(d, dict) else default\<close>\<close>

definition get_or :: "json \<Rightarrow> string \<Rightarrow> json \<Rightarrow> json" where
  "get_or d key dflt =
     (case d of
        JObj items \<Rightarrow> (case map_of items key of Some v \<Rightarrow> v | None \<Rightarrow> dflt)
      | _ \<Rightarrow> dflt)"

text \<open>\<^verbatim>\<open>d[key] = value\<close>: a key that is there keeps its place, a new key goes to the end.\<close>

fun dict_set :: "dict \<Rightarrow> string \<Rightarrow> json \<Rightarrow> dict" where
  "dict_set [] key v = [(key, v)]"
| "dict_set (p # ps) key v = (if fst p = key then (key, v) # ps else p # dict_set ps key v)"

section \<open>\<^verbatim>\<open>find_orphaned\<close>\<close>

text \<open>\<^verbatim>\<open>[elem for elem in value if elem not in expected]\<close>: the membership test runs once for
  each element, in order, and the first one that raises ends the comprehension.\<close>

fun orphaned_elements :: "json list \<Rightarrow> json \<Rightarrow> error + json list" where
  "orphaned_elements [] expected = Inr []"
| "orphaned_elements (elem # rest) expected =
     (case py_in elem expected of
        Inl e \<Rightarrow> Inl e
      | Inr found \<Rightarrow>
          (case orphaned_elements rest expected of
             Inl e \<Rightarrow> Inl e
           | Inr more \<Rightarrow> Inr (if \<not> found then elem # more else more)))"

text \<open>\<open>orphan_items\<close> is the \<^verbatim>\<open>for key, value in settings.items()\<close> loop, with the dict
  \<^verbatim>\<open>orphaned\<close> built so far as its last argument.\<close>

fun find_orphaned :: "json \<Rightarrow> json \<Rightarrow> json \<Rightarrow> error + dict"
and orphan_items :: "dict \<Rightarrow> json \<Rightarrow> json \<Rightarrow> dict \<Rightarrow> error + dict" where
  "find_orphaned (JObj items) base local_settings = orphan_items items base local_settings []"
| "find_orphaned JNull base local_settings = Inr []"
| "find_orphaned (JBool b) base local_settings = Inr []"
| "find_orphaned (JInt i) base local_settings = Inr []"
| "find_orphaned (JFloat r) base local_settings = Inr []"
| "find_orphaned (JStr s) base local_settings = Inr []"
| "find_orphaned (JArr xs) base local_settings = Inr []"
| "orphan_items [] base local_settings orphaned = Inr orphaned"
| "orphan_items (kv # rest) base local_settings orphaned =
     (let key = fst kv; val = snd kv;
          in_base = has_key base key;
          in_local = has_key local_settings key
      in
        if \<not> in_base \<and> \<not> in_local then
          orphan_items rest base local_settings (dict_set orphaned key val)
        else
          (case val of
             JObj sub \<Rightarrow>
               (let base_val = get_or base key (JObj []);
                    local_val = get_or local_settings key (JObj [])
                in case find_orphaned val base_val local_val of
                     Inl e \<Rightarrow> Inl e
                   | Inr nested \<Rightarrow>
                       orphan_items rest base local_settings
                         (if nested \<noteq> [] then dict_set orphaned key (JObj nested)
                          else orphaned))
           | JArr elems \<Rightarrow>
               (let base_arr = get_or base key (JArr []);
                    local_arr = get_or local_settings key (JArr []);
                    expected = (if in_local then local_arr else base_arr)
                in case orphaned_elements elems expected of
                     Inl e \<Rightarrow> Inl e
                   | Inr oe \<Rightarrow>
                       orphan_items rest base local_settings
                         (if oe \<noteq> [] then dict_set orphaned key (JArr oe) else orphaned))
           | _ \<Rightarrow> orphan_items rest base local_settings orphaned))"

section \<open>\<^verbatim>\<open>parse_jsonc\<close> and \<^verbatim>\<open>main\<close>\<close>

text \<open>A text is the sequence of its characters; the models cover the characters below U+0100.
  \<open>is_space\<close> is the whitespace of \<^verbatim>\<open>str.rstrip()\<close> and of the regex class \<^verbatim>\<open>\s\<close> on \<^verbatim>\<open>str\<close>
  patterns: the characters 9 to 13, 28 to 32, U+0085 and U+00A0.\<close>

definition nl :: char where
  "nl = CHR 0x0A"

definition bslash :: char where
  "bslash = CHR 0x5C"

definition is_space :: "char \<Rightarrow> bool" where
  "is_space c =
     (let n = (of_char c :: nat)
      in (9 \<le> n \<and> n \<le> 13) \<or> (28 \<le> n \<and> n \<le> 32) \<or> n = 133 \<or> n = 160)"

text \<open>\<^verbatim>\<open>re.sub(r"//[^\n]*", "", text)\<close>: scanning from the left, two slashes start a match that
  runs up to, and not including, the next newline; the match is dropped and the scan goes on
  behind it.\<close>

function sub_line_comments :: "string \<Rightarrow> string" where
  "sub_line_comments [] = []"
| "sub_line_comments [c] = [c]"
| "sub_line_comments (c # d # cs) =
     (if c = CHR ''/'' \<and> d = CHR ''/'' then sub_line_comments (dropWhile (\<lambda>x. x \<noteq> nl) cs)
      else c # sub_line_comments (d # cs))"
  by pat_completeness auto
termination
  by (relation "measure length") (auto simp: less_Suc_eq_le le_SucI length_dropWhile_le)

text \<open>\<^verbatim>\<open>re.sub(r",(\s*[}\]])", r"\1", text)\<close>: a comma starts a match when the first character
  behind it that is not whitespace is a closing brace or bracket; the match is replaced by its
  group, the whitespace and the closing character, and the scan goes on behind it.\<close>

definition is_closing :: "char \<Rightarrow> bool" where
  "is_closing c = (c = CHR ''}'' \<or> c = CHR '']'')"

function sub_trailing_commas :: "string \<Rightarrow> string" where
  "sub_trailing_commas [] = []"
| "sub_trailing_commas (c # cs) =
     (if c = CHR '','' then
        (case dropWhile is_space cs of
           [] \<Rightarrow> c # sub_trailing_commas cs
         | b # after \<Rightarrow>
             if is_closing b then takeWhile is_space cs @ b # sub_trailing_commas after
             else c # sub_trailing_commas cs)
      else c # sub_trailing_commas cs)"
  by pat_completeness auto
termination
proof (relation "measure length")
  show "wf (measure length)" by simp
next
  fix c :: char and cs b after
  assume "dropWhile is_space cs = b # after"
  then have "length after < length (dropWhile is_space cs)" by simp
  also have "\<dots> \<le> length cs" by (rule length_dropWhile_le)
  finally show "(after, c # cs) \<in> measure length" by simp
qed auto

text \<open>What the script takes from its surroundings: \<open>child name\<close> is the path
  \<^verbatim>\<open>script_dir / name\<close> as \<^verbatim>\<open>str\<close> prints it, \<open>path_exists\<close> and \<open>read_text\<close> are the methods of
  \<^verbatim>\<open>pathlib.Path\<close>, \<open>loads\<close> is \<^verbatim>\<open>json.loads\<close>, \<open>dumps v n\<close> is \<^verbatim>\<open>json.dumps(v, indent=n)\<close>, and
  \<open>traceback e\<close> is the text that the interpreter prints for an exception \<open>e\<close> that nothing
  caught.\<close>

record world =
  child :: "string \<Rightarrow> string"
  path_exists :: "string \<Rightarrow> bool"
  read_text :: "string \<Rightarrow> error + string"
  loads :: "string \<Rightarrow> error + json"
  dumps :: "json \<Rightarrow> nat \<Rightarrow> string"
  traceback :: "error \<Rightarrow> string"

definition parse_jsonc :: "world \<Rightarrow> string \<Rightarrow> error + json" where
  "parse_jsonc w path =
     (if \<not> path_exists w path then Inr (JObj [])
      else case read_text w path of
             Inl e \<Rightarrow> Inl e
           | Inr text \<Rightarrow> loads w (sub_trailing_commas (sub_line_comments text)))"

text \<open>A run of the process: what it wrote to standard output and to standard error, and how it
  ended. \<open>Exit n\<close> is the exit status \<open>n\<close>; \<open>Uncaught e\<close> is an exception that nothing caught:
  the interpreter prints its traceback to standard error and exits with status 1.\<close>

datatype outcome = Exit nat | Uncaught error

record run =
  stdout :: string
  stderr :: string
  status :: outcome

definition uncaught :: "world \<Rightarrow> error \<Rightarrow> run" where
  "uncaught w e = \<lparr>stdout = [], stderr = traceback w e, status = Uncaught e\<rparr>"

definition exit_status :: "outcome \<Rightarrow> nat" where
  "exit_status s = (case s of Exit n \<Rightarrow> n | Uncaught e \<Rightarrow> 1)"

definition main :: "world \<Rightarrow> run" where
  "main w =
     (let settings_path = child w ''settings.json'' in
      if \<not> path_exists w settings_path then
        \<lparr>stdout = [],
         stderr = ''Error: '' @ settings_path @ '' not found'' @ [nl],
         status = Exit 1\<rparr>
      else
        (case parse_jsonc w (child w ''settings.base.jsonc'') of
           Inl e \<Rightarrow> uncaught w e
         | Inr base \<Rightarrow>
        (case parse_jsonc w (child w ''settings.local.jsonc'') of
           Inl e \<Rightarrow> uncaught w e
         | Inr local_settings \<Rightarrow>
        (case parse_jsonc w settings_path of
           Inl e \<Rightarrow> uncaught w e
         | Inr settings \<Rightarrow>
        (case find_orphaned settings base local_settings of
           Inl e \<Rightarrow> uncaught w e
         | Inr orphaned \<Rightarrow>
             (if orphaned \<noteq> [] then
                \<lparr>stdout = dumps w (JObj orphaned) 2 @ [nl], stderr = [], status = Exit 0\<rparr>
              else
                \<lparr>stdout = ''No orphaned settings found.'' @ [nl], stderr = [],
                 status = Exit 0\<rparr>))))))"

section \<open>\<^verbatim>\<open>regex-escape.py\<close>\<close>

text \<open>\<^verbatim>\<open>str.rstrip()\<close> removes the whitespace at the end of the string.\<close>

definition rstrip :: "string \<Rightarrow> string" where
  "rstrip s = rev (dropWhile is_space (rev s))"

text \<open>\<^verbatim>\<open>re.escape\<close> of Python 3.7 and later puts a backslash before each of the characters
  \<^verbatim>\<open>()[]{}?*+-|^$\.&~#\<close>, the space, and tab, newline, carriage return, vertical tab and form
  feed, and leaves every other character as it is.\<close>

definition re_special :: "char list" where
  "re_special =
     ''()[]{}?*+-|^$.&~# '' @ [bslash, CHR 0x09, CHR 0x0A, CHR 0x0D, CHR 0x0B, CHR 0x0C]"

definition escape_char :: "char \<Rightarrow> string" where
  "escape_char c = (if c \<in> set re_special then [bslash, c] else [c])"

definition re_escape :: "string \<Rightarrow> string" where
  "re_escape pattern = concat (map escape_char pattern)"

text \<open>\<^verbatim>\<open>s.replace(old, new)\<close> for an \<^verbatim>\<open>old\<close> of one character.\<close>

definition replace_char :: "char \<Rightarrow> string \<Rightarrow> string \<Rightarrow> string" where
  "replace_char old new s = concat (map (\<lambda>c. if c = old then new else [c]) s)"

text \<open>The body of the loop, \<^verbatim>\<open>re.escape(line.rstrip()).replace("/", "\\/")\<close>, and the loop
  over the lines of standard input, which prints each result followed by a newline.\<close>

definition escape_line :: "string \<Rightarrow> string" where
  "escape_line line = replace_char (CHR ''/'') [bslash, CHR ''/''] (re_escape (rstrip line))"

definition escaper :: "string list \<Rightarrow> string" where
  "escaper lines = concat (map (\<lambda>line. escape_line line @ [nl]) lines)"

text \<open>How Python's \<^verbatim>\<open>re\<close> reads a pattern that is built from literals only. A character other
  than \<^verbatim>\<open>.[{()*+?^$|\<close> and the backslash stands for itself; a backslash followed by a character
  that is neither an ASCII letter nor a digit stands for that character. \<open>re_literal p\<close> is
  \<open>Some s\<close> when \<open>p\<close> is such a pattern, and then \<open>p\<close> matches the text \<open>s\<close> and nothing else; it
  is \<open>None\<close> for every other pattern.\<close>

definition re_meta :: "char list" where
  "re_meta = ''.[{()*+?^$|'' @ [bslash]"

definition is_ascii_alnum :: "char \<Rightarrow> bool" where
  "is_ascii_alnum c =
     (let n = (of_char c :: nat)
      in (48 \<le> n \<and> n \<le> 57) \<or> (65 \<le> n \<and> n \<le> 90) \<or> (97 \<le> n \<and> n \<le> 122))"

fun re_literal :: "string \<Rightarrow> string option" where
  "re_literal [] = Some []"
| "re_literal [c] = (if c \<in> set re_meta then None else Some [c])"
| "re_literal (c # d # cs) =
     (if c = bslash then
        (if is_ascii_alnum d then None else map_option ((#) d) (re_literal cs))
      else if c \<in> set re_meta then None
      else map_option ((#) c) (re_literal (d # cs)))"

section \<open>Notions used to state the properties\<close>

text \<open>What one pass of the loop of \<^verbatim>\<open>find_orphaned\<close> stores under its key: \<open>Some v\<close> when
  it assigns \<^verbatim>\<open>orphaned[key] = v\<close>, \<open>None\<close> when it assigns nothing.\<close>

definition orphan_entry :: "string \<times> json \<Rightarrow> json \<Rightarrow> json \<Rightarrow> error + json option" where
  "orphan_entry kv base local_settings =
     (let key = fst kv; val = snd kv in
      if \<not> has_key base key \<and> \<not> has_key local_settings key then Inr (Some val)
      else
        (case val of
           JObj sub \<Rightarrow>
             (case find_orphaned val (get_or base key (JObj [])) (get_or local_settings key (JObj [])) of
                Inl e \<Rightarrow> Inl e
              | Inr nested \<Rightarrow> Inr (if nested \<noteq> [] then Some (JObj nested) else None))
         | JArr elems \<Rightarrow>
             (case orphaned_elements elems
                     (if has_key local_settings key then get_or local_settings key (JArr [])
                      else get_or base key (JArr [])) of
                Inl e \<Rightarrow> Inl e
              | Inr oe \<Rightarrow> Inr (if oe \<noteq> [] then Some (JArr oe) else None))
         | _ \<Rightarrow> Inr None))"

text \<open>\<open>lookup d key\<close> is the value of \<open>key\<close> in \<open>d\<close>, and \<open>None\<close> when \<open>d\<close> has no such key or
  is not a mapping. \<open>sub_mapping d key\<close> is that value when it is a mapping and the empty
  mapping otherwise; \<open>as_dict d\<close> is \<open>d\<close> when it is a mapping and the empty mapping otherwise.
  \<open>expected_value\<close> is the value of the key in the local document when the key is there, and
  its value in the base document otherwise.\<close>

definition lookup :: "json \<Rightarrow> string \<Rightarrow> json option" where
  "lookup d key = (case d of JObj items \<Rightarrow> map_of items key | _ \<Rightarrow> None)"

definition sub_mapping :: "json \<Rightarrow> string \<Rightarrow> json" where
  "sub_mapping d key = (case lookup d key of Some (JObj m) \<Rightarrow> JObj m | _ \<Rightarrow> JObj [])"

definition expected_value :: "json \<Rightarrow> json \<Rightarrow> string \<Rightarrow> json option" where
  "expected_value base local_settings key =
     (if has_key local_settings key then lookup local_settings key else lookup base key)"

definition as_dict :: "json \<Rightarrow> json" where
  "as_dict d = (case d of JObj m \<Rightarrow> JObj m | _ \<Rightarrow> JObj [])"

text \<open>A sufficient condition for \<^verbatim>\<open>find_orphaned\<close> to return: wherever the diff tests
  \<^verbatim>\<open>elem not in expected\<close>, the expected value is a sequence. \<open>sequences_guarded\<close> follows the
  recursion of \<^verbatim>\<open>find_orphaned\<close> and checks this at every key that the diff reaches.\<close>

definition is_sequence :: "json \<Rightarrow> bool" where
  "is_sequence v = (case v of JArr es \<Rightarrow> True | _ \<Rightarrow> False)"

fun sequences_guarded :: "json \<Rightarrow> json \<Rightarrow> json \<Rightarrow> bool"
and items_guarded :: "dict \<Rightarrow> json \<Rightarrow> json \<Rightarrow> bool" where
  "sequences_guarded (JObj items) base local_settings = items_guarded items base local_settings"
| "sequences_guarded JNull base local_settings = True"
| "sequences_guarded (JBool b) base local_settings = True"
| "sequences_guarded (JInt i) base local_settings = True"
| "sequences_guarded (JFloat r) base local_settings = True"
| "sequences_guarded (JStr s) base local_settings = True"
| "sequences_guarded (JArr xs) base local_settings = True"
| "items_guarded [] base local_settings = True"
| "items_guarded (kv # rest) base local_settings =
     ((if \<not> has_key base (fst kv) \<and> \<not> has_key local_settings (fst kv) then True
       else
         (case snd kv of
            JObj sub \<Rightarrow>
              sequences_guarded (snd kv) (get_or base (fst kv) (JObj []))
                (get_or local_settings (fst kv) (JObj []))
          | JArr elems \<Rightarrow>
              is_sequence (if has_key local_settings (fst kv)
                           then get_or local_settings (fst kv) (JArr [])
                           else get_or base (fst kv) (JArr []))
          | _ \<Rightarrow> True))
      \<and> items_guarded rest base local_settings)"

text \<open>The cleaning that \<^verbatim>\<open>parse_jsonc\<close> is described to do, written down from the description:
  \<open>remove_line_comments\<close> cuts every line of the text off at its first \<^verbatim>\<open>//\<close>, and
  \<open>remove_trailing_commas\<close> drops every comma that has only whitespace between itself and a
  closing brace or bracket. \<open>split_lines\<close> and \<open>join_lines\<close> are \<^verbatim>\<open>text.split("\n")\<close> and
  \<^verbatim>\<open>"\n".join(lines)\<close>.\<close>

fun split_lines :: "string \<Rightarrow> string list" where
  "split_lines [] = [[]]"
| "split_lines (c # cs) =
     (if c = nl then [] # split_lines cs
      else (case split_lines cs of [] \<Rightarrow> [[c]] | l # ls \<Rightarrow> (c # l) # ls))"

fun join_lines :: "string list \<Rightarrow> string" where
  "join_lines [] = []"
| "join_lines [l] = l"
| "join_lines (l # m # ls) = l @ nl # join_lines (m # ls)"

fun before_comment :: "string \<Rightarrow> string" where
  "before_comment [] = []"
| "before_comment [c] = [c]"
| "before_comment (c # d # cs) =
     (if c = CHR ''/'' \<and> d = CHR ''/'' then [] else c # before_comment (d # cs))"

definition remove_line_comments :: "string \<Rightarrow> string" where
  "remove_line_comments text = join_lines (map before_comment (split_lines text))"

definition before_closing :: "string \<Rightarrow> bool" where
  "before_closing rest = (case dropWhile is_space rest of [] \<Rightarrow> False | b # _ \<Rightarrow> is_closing b)"

fun remove_trailing_commas :: "string \<Rightarrow> string" where
  "remove_trailing_commas [] = []"
| "remove_trailing_commas (c # cs) =
     (if c = CHR '','' \<and> before_closing cs then remove_trailing_commas cs
      else c # remove_trailing_commas cs)"

text \<open>The JSONC text of the example, \<^verbatim>\<open>{ "a": 1, // comment\<close>, a newline and \<^verbatim>\<open> }\<close>, the same text
  cleaned, and surroundings in which \<^verbatim>\<open>settings.base.jsonc\<close> is that text and no other file
  exists.\<close>

definition dquote :: char where
  "dquote = CHR 0x22"

definition jsonc_example :: string where
  "jsonc_example = ''{ '' @ [dquote] @ ''a'' @ [dquote] @ '': 1, // comment'' @ [nl] @ '' }''"

definition jsonc_example_cleaned :: string where
  "jsonc_example_cleaned = ''{ '' @ [dquote] @ ''a'' @ [dquote] @ '': 1 '' @ [nl] @ '' }''"

definition example_world :: world where
  "example_world =
     \<lparr>child = (\<lambda>name. ''/z/'' @ name),
      path_exists = (\<lambda>p. p = ''/z/settings.base.jsonc''),
      read_text = (\<lambda>p. if p = ''/z/settings.base.jsonc'' then Inr jsonc_example else Inl OSError),
      loads = (\<lambda>t. if t = jsonc_example_cleaned then Inr (JObj [(''a'', JInt 1)])
                    else Inl JSONDecodeError),
      dumps = (\<lambda>v n. []),
      traceback = (\<lambda>e. ''Traceback (most recent call last):'')\<rparr>"

text \<open>Surroundings in which \<^verbatim>\<open>settings.json\<close> is \<^verbatim>\<open>{"k": [1]}\<close>, \<^verbatim>\<open>settings.base.jsonc\<close> is
  \<^verbatim>\<open>{"k": 5}\<close> and \<^verbatim>\<open>settings.local.jsonc\<close> does not exist.\<close>

definition crash_settings_text :: string where
  "crash_settings_text = ''{'' @ [dquote] @ ''k'' @ [dquote] @ '': [1]}''"

definition crash_base_text :: string where
  "crash_base_text = ''{'' @ [dquote] @ ''k'' @ [dquote] @ '': 5}''"

definition crash_world :: world where
  "crash_world =
     \<lparr>child = (\<lambda>name. ''/z/'' @ name),
      path_exists = (\<lambda>p. p = ''/z/settings.json'' \<or> p = ''/z/settings.base.jsonc''),
      read_text = (\<lambda>p. if p = ''/z/settings.json'' then Inr crash_settings_text
                        else if p = ''/z/settings.base.jsonc'' then Inr crash_base_text
                        else Inl OSError),
      loads = (\<lambda>t. if t = crash_settings_text then Inr (JObj [(''k'', JArr [JInt 1])])
                    else if t = crash_base_text then Inr (JObj [(''k'', JInt 5)])
                    else Inl JSONDecodeError),
      dumps = (\<lambda>v n. []),
      traceback = (\<lambda>e. ''Traceback (most recent call last):'')\<rparr>"

text \<open>What the loop of \<^verbatim>\<open>regex-escape.py\<close> makes of one character of the stripped line.\<close>

definition escape_slash_char :: "char \<Rightarrow> string" where
  "escape_slash_char c = (if c = CHR ''/'' then [bslash, CHR ''/''] else escape_char c)"

section \<open>Properties of \<^verbatim>\<open>find_orphaned\<close>\<close>

subsection \<open>The loop, one key at a time\<close>

lemma orphan_items_Cons:
  "orphan_items (kv # rest) base loc acc =
     (case orphan_entry kv base loc of
        Inl e \<Rightarrow> Inl e
      | Inr None \<Rightarrow> orphan_items rest base loc acc
      | Inr (Some v) \<Rightarrow> orphan_items rest base loc (dict_set acc (fst kv) v))"
  by (simp add: orphan_entry_def Let_def split: json.splits sum.splits)

lemma map_of_dict_set: "map_of (dict_set d k v) = (map_of d)(k \<mapsto> v)"
  by (induction d) (auto simp: fun_eq_iff)

lemma orphan_items_other:
  "orphan_items items base loc acc = Inr r \<Longrightarrow> k \<notin> set (map fst items) \<Longrightarrow>
   map_of r k = map_of acc k"
proof (induction items arbitrary: acc)
  case Nil
  then show ?case by simp
next
  case (Cons kv rest)
  from Cons.prems show ?case
    by (auto simp: orphan_items_Cons map_of_dict_set simp del: orphan_items.simps split: sum.splits option.splits
        dest!: Cons.IH)
qed

lemma orphan_items_lookup:
  "orphan_items items base loc acc = Inr r \<Longrightarrow> distinct (map fst items) \<Longrightarrow>
   (k, v) \<in> set items \<Longrightarrow>
   \<exists>e. orphan_entry (k, v) base loc = Inr e \<and> map_of r k = (case e of None \<Rightarrow> map_of acc k | Some x \<Rightarrow> Some x)"
proof (induction items arbitrary: acc)
  case Nil
  then show ?case by simp
next
  case (Cons kv rest)
  show ?case
  proof (cases "kv = (k, v)")
    case True
    with Cons.prems(2) have notin: "k \<notin> set (map fst rest)" by auto
    from Cons.prems(1) True show ?thesis
      by (auto simp: orphan_items_Cons map_of_dict_set simp del: orphan_items.simps split: sum.splits option.splits
          dest!: orphan_items_other[where k = k, OF _ notin])
  next
    case False
    with Cons.prems have mem: "(k, v) \<in> set rest" and d: "distinct (map fst rest)"
      and ne: "fst kv \<noteq> k" by (auto simp: rev_image_eqI)
    from Cons.prems(1) ne show ?thesis
      by (auto simp: orphan_items_Cons map_of_dict_set simp del: orphan_items.simps split: sum.splits option.splits
          dest!: Cons.IH[OF _ d mem])
  qed
qed


lemma has_key_as_dict: "has_key (as_dict d) k = has_key d k"
  by (cases d) (simp_all add: has_key_def as_dict_def)

lemma get_or_as_dict: "get_or (as_dict d) k dflt = get_or d k dflt"
  by (cases d) (simp_all add: get_or_def as_dict_def)

lemma orphan_entry_as_dict:
  "orphan_entry kv (as_dict base) (as_dict loc) = orphan_entry kv base loc"
  unfolding orphan_entry_def has_key_as_dict get_or_as_dict ..

lemma orphan_items_as_dict:
  "orphan_items items (as_dict base) (as_dict loc) acc = orphan_items items base loc acc"
  by (induction items arbitrary: acc)
     (simp_all add: orphan_items_Cons orphan_entry_as_dict del: orphan_items.simps(2)
        split: sum.splits option.splits)

lemma find_orphaned_as_dict:
  "find_orphaned settings (as_dict base) (as_dict loc) = find_orphaned settings base loc"
  by (cases settings) (simp_all add: orphan_items_as_dict)

lemma has_key_lookup: "has_key d k \<longleftrightarrow> lookup d k \<noteq> None"
  by (cases d) (auto simp: has_key_def lookup_def map_of_eq_None_iff)

lemma get_or_lookup: "get_or d k dflt = (case lookup d k of Some v \<Rightarrow> v | None \<Rightarrow> dflt)"
  by (cases d) (simp_all add: get_or_def lookup_def)

lemma as_dict_get_or: "as_dict (get_or d k (JObj [])) = sub_mapping d k"
  by (auto simp: get_or_lookup sub_mapping_def as_dict_def split: option.splits json.splits)

lemma find_orphaned_lookup:
  assumes "find_orphaned (JObj s) base loc = Inr r"
    and "distinct (map fst s)"
    and "map_of s k = Some v"
  shows "orphan_entry (k, v) base loc = Inr (map_of r k)"
proof -
  from assms(3) have mem: "(k, v) \<in> set s" by (rule map_of_SomeD)
  from assms(1) have "orphan_items s base loc [] = Inr r" by simp
  from orphan_items_lookup[OF this assms(2) mem] show ?thesis
    by (auto split: option.splits)
qed

lemma orphan_entry_dict:
  "has_key base k \<or> has_key loc k \<Longrightarrow>
   orphan_entry (k, JObj sub) base loc =
     (case find_orphaned (JObj sub) (get_or base k (JObj [])) (get_or loc k (JObj [])) of
        Inl e \<Rightarrow> Inl e
      | Inr nested \<Rightarrow> Inr (if nested \<noteq> [] then Some (JObj nested) else None))"
  unfolding orphan_entry_def Let_def fst_conv snd_conv json.case by (simp only: de_Morgan_disj[symmetric] if_not_P not_not if_False)

lemma orphan_entry_array:
  "has_key base k \<or> has_key loc k \<Longrightarrow>
   orphan_entry (k, JArr vs) base loc =
     (case orphaned_elements vs
             (if has_key loc k then get_or loc k (JArr []) else get_or base k (JArr [])) of
        Inl e \<Rightarrow> Inl e
      | Inr oe \<Rightarrow> Inr (if oe \<noteq> [] then Some (JArr oe) else None))"
  unfolding orphan_entry_def Let_def fst_conv snd_conv json.case by (simp only: de_Morgan_disj[symmetric] if_not_P not_not if_False)

lemma orphan_entry_unexplained:
  "\<not> has_key base k \<Longrightarrow> \<not> has_key loc k \<Longrightarrow> orphan_entry (k, v) base loc = Inr (Some v)"
  unfolding orphan_entry_def Let_def fst_conv snd_conv by simp

lemma sub_mapping_eq:
  "find_orphaned settings (sub_mapping base k) (sub_mapping loc k)
     = find_orphaned settings (get_or base k (JObj [])) (get_or loc k (JObj []))"
  using find_orphaned_as_dict[of settings "get_or base k (JObj [])" "get_or loc k (JObj [])"]
  by (simp only: as_dict_get_or)

lemma nested_diff:
  assumes "find_orphaned (JObj s) base loc = Inr r"
    and "distinct (map fst s)"
    and "map_of s k = Some (JObj sub)"
    and "has_key base k \<or> has_key loc k"
  shows "\<exists>nested. find_orphaned (JObj sub) (sub_mapping base k) (sub_mapping loc k) = Inr nested
            \<and> map_of r k = (if nested = [] then None else Some (JObj nested))"
proof -
  have e: "orphan_entry (k, JObj sub) base loc = Inr (map_of r k)"
    using assms(1-3) by (rule find_orphaned_lookup)
  show ?thesis
  proof (cases "find_orphaned (JObj sub) (get_or base k (JObj [])) (get_or loc k (JObj []))")
    case (Inl err)
    with e show ?thesis
      by (simp only: orphan_entry_dict[OF assms(4)] sum.case sum.distinct)
  next
    case (Inr nested)
    with e have "map_of r k = (if nested \<noteq> [] then Some (JObj nested) else None)"
      by (simp only: orphan_entry_dict[OF assms(4)] sum.case sum.inject)
    then have "map_of r k = (if nested = [] then None else Some (JObj nested))"
      by (cases "nested = []") simp_all
    with Inr show ?thesis
      by (simp only: sub_mapping_eq) blast
  qed
qed

lemma orphaned_elements_list:
  "orphaned_elements vs (JArr es) = Inr (filter (\<lambda>e. \<forall>x\<in>set es. \<not> py_eq x e) vs)"
  by (induction vs) (simp_all add: list_ex_iff)

lemma expected_get_or:
  assumes "has_key base k \<or> has_key loc k"
    and "expected_value base loc k = Some ex"
  shows "(if has_key loc k then get_or loc k (JArr []) else get_or base k (JArr [])) = ex"
  using assms(2) by (cases "has_key loc k") (simp_all add: expected_value_def get_or_lookup)

lemma array_diff:
  assumes "find_orphaned (JObj s) base loc = Inr r"
    and "distinct (map fst s)"
    and "map_of s k = Some (JArr vs)"
    and "has_key base k \<or> has_key loc k"
    and "expected_value base loc k = Some (JArr es)"
  shows "map_of r k =
     (if filter (\<lambda>e. \<forall>x\<in>set es. \<not> py_eq x e) vs = [] then None
      else Some (JArr (filter (\<lambda>e. \<forall>x\<in>set es. \<not> py_eq x e) vs)))"
proof -
  have e: "orphan_entry (k, JArr vs) base loc = Inr (map_of r k)"
    using assms(1-3) by (rule find_orphaned_lookup)
  have "orphan_entry (k, JArr vs) base loc =
     Inr (if filter (\<lambda>e. \<forall>x\<in>set es. \<not> py_eq x e) vs \<noteq> [] then
            Some (JArr (filter (\<lambda>e. \<forall>x\<in>set es. \<not> py_eq x e) vs)) else None)"
    by (simp only: orphan_entry_array[OF assms(4)] expected_get_or[OF assms(4,5)]
        orphaned_elements_list sum.case)
  with e show ?thesis
    by (cases "filter (\<lambda>e. \<forall>x\<in>set es. \<not> py_eq x e) vs = []") simp_all
qed

lemma unexplained:
  assumes "find_orphaned (JObj s) base loc = Inr r"
    and "distinct (map fst s)"
    and "map_of s k = Some v"
    and "\<not> has_key base k" "\<not> has_key loc k"
  shows "map_of r k = Some v"
  using find_orphaned_lookup[OF assms(1-3)]
  by (simp only: orphan_entry_unexplained[OF assms(4,5)] sum.inject)

lemma wf_list_iff: "wf_list xs \<longleftrightarrow> (\<forall>x\<in>set xs. wf_json x)"
  by (induction xs) simp_all

lemma wf_items_iff: "wf_items items \<longleftrightarrow> (\<forall>kv\<in>set items. wf_json (snd kv))"
  by (induction items) simp_all

lemma py_eq_list_refl: "(\<forall>x\<in>set xs. py_eq x x) \<Longrightarrow> py_eq_list xs xs"
  by (induction xs) simp_all

lemma py_items_in_refl:
  "distinct (map fst b) \<Longrightarrow> set a \<subseteq> set b \<Longrightarrow> (\<forall>kv\<in>set a. py_eq (snd kv) (snd kv)) \<Longrightarrow>
   py_items_in a b"
proof (induction a)
  case Nil
  then show ?case by simp
next
  case (Cons kv rest)
  from Cons.prems have "(fst kv, snd kv) \<in> set b" by simp
  with Cons.prems(1) have m: "map_of b (fst kv) = Some (snd kv)" by (rule map_of_is_SomeI)
  have rest: "py_items_in rest b" using Cons by simp
  have hd: "py_eq (snd kv) (snd kv)" using Cons.prems by simp
  show ?case by (simp only: py_items_in.simps m option.case hd rest simp_thms)
qed

lemma py_eq_refl: "wf_json x \<Longrightarrow> py_eq x x"
proof (induction x)
  case (JArr xs)
  then show ?case by (simp add: py_eq_list_refl wf_list_iff)
next
  case (JObj items)
  have "py_items_in items items"
  proof (rule py_items_in_refl)
    show "distinct (map fst items)" using JObj.prems by simp
    show "set items \<subseteq> set items" by simp
    show "\<forall>kv\<in>set items. py_eq (snd kv) (snd kv)"
    proof
      fix kv assume m: "kv \<in> set items"
      obtain k v where kv: "kv = (k, v)" by (cases kv)
      from m JObj.prems have "wf_json v" by (simp add: wf_items_iff kv) (metis kv snd_conv)
      with JObj.IH[of kv v] m kv show "py_eq (snd kv) (snd kv)" by simp
    qed
  qed
  then show ?case by simp
qed (simp_all split: pyfloat.splits)

lemma has_key_empty: "\<not> has_key (JObj []) k"
  by (simp add: has_key_def)

lemma get_or_empty: "get_or (JObj []) k dflt = dflt"
  by (simp add: get_or_def)

lemma get_or_present: "map_of items k = Some v \<Longrightarrow> get_or (JObj items) k dflt = v"
  by (simp add: get_or_def)

lemma has_key_present: "map_of items k = Some v \<Longrightarrow> has_key (JObj items) k"
  by (auto simp: has_key_def dest: map_of_SomeD intro: rev_image_eqI)

lemma filter_self_empty:
  "\<forall>x\<in>set vs. py_eq x x \<Longrightarrow> filter (\<lambda>e. \<forall>x\<in>set vs. \<not> py_eq x e) vs = []"
  by (auto simp: filter_empty_conv)

lemma orphan_entry_self:
  assumes m: "map_of items k = Some v"
    and wf: "wf_json v"
    and ih: "find_orphaned v v (JObj []) = Inr []"
  shows "orphan_entry (k, v) (JObj items) (JObj []) = Inr None"
proof -
  have ex: "has_key (JObj items) k \<or> has_key (JObj []) k"
    using has_key_present[OF m] by simp
  show ?thesis
  proof (cases v)
    case (JObj sub)
    have "orphan_entry (k, JObj sub) (JObj items) (JObj []) =
        (case find_orphaned (JObj sub) (JObj sub) (JObj []) of
           Inl e \<Rightarrow> Inl e
         | Inr nested \<Rightarrow> Inr (if nested \<noteq> [] then Some (JObj nested) else None))"
      using m by (simp only: orphan_entry_dict[OF ex] get_or_empty get_or_present JObj)
    with ih show ?thesis by (simp only: JObj sum.case) simp
  next
    case (JArr vs)
    from wf have refl: "\<forall>x\<in>set vs. py_eq x x"
      by (simp add: JArr wf_list_iff py_eq_refl)
    have "orphan_entry (k, JArr vs) (JObj items) (JObj []) =
        (case orphaned_elements vs (JArr vs) of
           Inl e \<Rightarrow> Inl e
         | Inr oe \<Rightarrow> Inr (if oe \<noteq> [] then Some (JArr oe) else None))"
      using m by (simp only: orphan_entry_array[OF ex] has_key_empty if_False get_or_present JArr)
    then show ?thesis
      by (simp only: JArr orphaned_elements_list filter_self_empty[OF refl] sum.case) simp
  qed (simp_all add: orphan_entry_def has_key_present[OF m])
qed

lemma orphan_items_self:
  assumes d: "distinct (map fst items)"
    and ok: "\<forall>kv\<in>set items. wf_json (snd kv) \<and> find_orphaned (snd kv) (snd kv) (JObj []) = Inr []"
  shows "set its \<subseteq> set items \<Longrightarrow> orphan_items its (JObj items) (JObj []) acc = Inr acc"
proof (induction its)
  case Nil
  show ?case by simp
next
  case (Cons kv rest)
  from Cons.prems have mem: "(fst kv, snd kv) \<in> set items" by simp
  with d have m: "map_of items (fst kv) = Some (snd kv)" by (rule map_of_is_SomeI)
  from mem ok have "wf_json (snd kv)" "find_orphaned (snd kv) (snd kv) (JObj []) = Inr []"
    by auto
  with m have "orphan_entry (fst kv, snd kv) (JObj items) (JObj []) = Inr None"
    by (rule orphan_entry_self)
  then have e: "orphan_entry kv (JObj items) (JObj []) = Inr None" by simp
  from Cons have r: "orphan_items rest (JObj items) (JObj []) acc = Inr acc" by simp
  show ?case by (simp only: orphan_items_Cons e r sum.case option.case)
qed

lemma self_diff: "wf_json s \<Longrightarrow> find_orphaned s s (JObj []) = Inr []"
proof (induction s)
  case (JObj items)
  have ok: "\<forall>kv\<in>set items. wf_json (snd kv) \<and> find_orphaned (snd kv) (snd kv) (JObj []) = Inr []"
  proof
    fix kv assume m: "kv \<in> set items"
    obtain k v where kv: "kv = (k, v)" by (cases kv)
    from m JObj.prems have w: "wf_json (snd kv)" by (simp add: wf_items_iff)
    with JObj.IH[of kv v] m kv
    show "wf_json (snd kv) \<and> find_orphaned (snd kv) (snd kv) (JObj []) = Inr []" by simp
  qed
  from JObj.prems have d: "distinct (map fst items)" by simp
  have "orphan_items items (JObj items) (JObj []) [] = Inr []"
    using d ok by (rule orphan_items_self) simp
  then show ?case by simp
qed simp_all

subsection \<open>When \<^verbatim>\<open>find_orphaned\<close> returns\<close>

lemma orphan_entry_scalar:
  "(\<forall>sub. v \<noteq> JObj sub) \<Longrightarrow> (\<forall>vs. v \<noteq> JArr vs) \<Longrightarrow>
   has_key base k \<or> has_key loc k \<Longrightarrow> orphan_entry (k, v) base loc = Inr None"
  by (cases v) (auto simp: orphan_entry_def)

lemma orphan_entry_returns:
  assumes g: "if \<not> has_key base k \<and> \<not> has_key loc k then True
       else
         (case v of
            JObj sub \<Rightarrow>
              sequences_guarded v (get_or base k (JObj [])) (get_or loc k (JObj []))
          | JArr elems \<Rightarrow>
              is_sequence (if has_key loc k then get_or loc k (JArr [])
                           else get_or base k (JArr []))
          | _ \<Rightarrow> True)"
    and ih: "\<And>b l. sequences_guarded v b l \<Longrightarrow> \<exists>r. find_orphaned v b l = Inr r"
  shows "\<exists>e. orphan_entry (k, v) base loc = Inr e"
proof (cases "\<not> has_key base k \<and> \<not> has_key loc k")
  case True
  then show ?thesis by (simp add: orphan_entry_unexplained)
next
  case False
  then have ex: "has_key base k \<or> has_key loc k" by blast
  show ?thesis
  proof (cases v)
    case (JObj sub)
    with g False
    have "sequences_guarded (JObj sub) (get_or base k (JObj [])) (get_or loc k (JObj []))"
      by simp
    with ih JObj obtain r where
      "find_orphaned (JObj sub) (get_or base k (JObj [])) (get_or loc k (JObj [])) = Inr r"
      by blast
    then show ?thesis by (simp only: JObj orphan_entry_dict[OF ex] sum.case) blast
  next
    case (JArr vs)
    with g False
    have "is_sequence (if has_key loc k then get_or loc k (JArr []) else get_or base k (JArr []))"
      by simp
    then obtain es where
      "(if has_key loc k then get_or loc k (JArr []) else get_or base k (JArr [])) = JArr es"
      by (auto simp: is_sequence_def split: json.splits)
    then show ?thesis
      by (simp only: JArr orphan_entry_array[OF ex] orphaned_elements_list sum.case) blast
  qed (simp_all add: orphan_entry_scalar[OF _ _ ex])
qed

lemma orphan_items_returns:
  assumes ih: "\<And>kv b l. kv \<in> set items \<Longrightarrow> sequences_guarded (snd kv) b l \<Longrightarrow>
                 \<exists>r. find_orphaned (snd kv) b l = Inr r"
  shows "set its \<subseteq> set items \<Longrightarrow> items_guarded its base loc \<Longrightarrow>
         \<exists>r. orphan_items its base loc acc = Inr r"
proof (induction its arbitrary: acc)
  case Nil
  show ?case by simp
next
  case (Cons kv rest)
  from Cons.prems have mem: "kv \<in> set items" and sub: "set rest \<subseteq> set items"
    and gr: "items_guarded rest base loc" by simp_all
  from Cons.prems(2)
  have g: "if \<not> has_key base (fst kv) \<and> \<not> has_key loc (fst kv) then True
       else
         (case snd kv of
            JObj sub \<Rightarrow>
              sequences_guarded (snd kv) (get_or base (fst kv) (JObj []))
                (get_or loc (fst kv) (JObj []))
          | JArr elems \<Rightarrow>
              is_sequence (if has_key loc (fst kv) then get_or loc (fst kv) (JArr [])
                           else get_or base (fst kv) (JArr []))
          | _ \<Rightarrow> True)"
    by simp
  have "\<exists>e. orphan_entry (fst kv, snd kv) base loc = Inr e"
    using g ih[OF mem] by (rule orphan_entry_returns)
  then obtain e where e: "orphan_entry kv base loc = Inr e" by auto
  show ?case
  proof (cases e)
    case None
    with e Cons.IH[OF sub gr, of acc] show ?thesis
      by (simp only: orphan_items_Cons sum.case option.case)
  next
    case (Some x)
    with e Cons.IH[OF sub gr, of "dict_set acc (fst kv) x"] show ?thesis
      by (simp only: orphan_items_Cons sum.case option.case)
  qed
qed

lemma find_orphaned_returns:
  "sequences_guarded s base loc \<Longrightarrow> \<exists>r. find_orphaned s base loc = Inr r"
proof (induction s arbitrary: base loc)
  case (JObj items)
  have "\<exists>r. orphan_items items base loc [] = Inr r"
  proof (rule orphan_items_returns)
    fix kv b l
    assume m: "kv \<in> set items" and g: "sequences_guarded (snd kv) b l"
    obtain k v where kv: "kv = (k, v)" by (cases kv)
    from JObj.IH[of kv v b l] m g kv show "\<exists>r. find_orphaned (snd kv) b l = Inr r" by simp
  next
    show "set items \<subseteq> set items" by simp
    show "items_guarded items base loc" using JObj.prems by simp
  qed
  then show ?case by simp
qed simp_all

subsection \<open>The claims about \<^verbatim>\<open>find_orphaned\<close>\<close>

text \<open>What the result holds for an unexplained key, for an explained key with a mapping as its
  value and for an explained key with a sequence as its value, whenever there is a result; and
  there is one for documents that are \<open>sequences_guarded\<close>.\<close>

lemma unexplained_key_if_returned:
  "(\<forall>s base loc r k v.
      find_orphaned (JObj s) base loc = Inr r \<and> distinct (map fst s) \<and> map_of s k = Some v
        \<and> \<not> has_key base k \<and> \<not> has_key loc k
      \<longrightarrow> map_of r k = Some v)
   \<and> find_orphaned (JObj [(''x'', JInt 5)]) (JObj []) (JObj []) = Inr [(''x'', JInt 5)]"
proof (intro conjI allI impI)
  fix s base loc r k v
  assume "find_orphaned (JObj s) base loc = Inr r \<and> distinct (map fst s) \<and> map_of s k = Some v
        \<and> \<not> has_key base k \<and> \<not> has_key loc k"
  then show "map_of r k = Some v" by (blast intro: unexplained)
next
  show "find_orphaned (JObj [(''x'', JInt 5)]) (JObj []) (JObj []) = Inr [(''x'', JInt 5)]"
    by (simp add: has_key_def)
qed

lemma unexplained_key_when_guarded:
  assumes "sequences_guarded (JObj s) base loc"
    and "distinct (map fst s)"
    and "map_of s k = Some v"
    and "\<not> has_key base k" "\<not> has_key loc k"
  shows "\<exists>r. find_orphaned (JObj s) base loc = Inr r \<and> map_of r k = Some v"
proof -
  from assms(1) obtain r where r: "find_orphaned (JObj s) base loc = Inr r"
    using find_orphaned_returns by blast
  from r assms(2-5) have "map_of r k = Some v" by (rule unexplained)
  with r show ?thesis by blast
qed

lemma explained_mapping_if_returned:
  "(\<forall>s base loc r k sub.
      find_orphaned (JObj s) base loc = Inr r \<and> distinct (map fst s)
        \<and> map_of s k = Some (JObj sub) \<and> (has_key base k \<or> has_key loc k)
      \<longrightarrow> (\<exists>nested.
             find_orphaned (JObj sub) (sub_mapping base k) (sub_mapping loc k) = Inr nested
             \<and> (k \<in> dom (map_of r) \<longleftrightarrow> nested \<noteq> [])
             \<and> (nested \<noteq> [] \<longrightarrow> map_of r k = Some (JObj nested))))
   \<and> find_orphaned
        (JObj [(''editor'', JObj [(''fontSize'', JInt 14), (''tabSize'', JInt 2)])])
        (JObj [(''editor'', JObj [(''fontSize'', JInt 14)])])
        (JObj [])
      = Inr [(''editor'', JObj [(''tabSize'', JInt 2)])]"
proof (intro conjI allI impI)
  fix s base loc r k sub
  assume a: "find_orphaned (JObj s) base loc = Inr r \<and> distinct (map fst s)
        \<and> map_of s k = Some (JObj sub) \<and> (has_key base k \<or> has_key loc k)"
  then obtain nested where
    n: "find_orphaned (JObj sub) (sub_mapping base k) (sub_mapping loc k) = Inr nested"
    and r: "map_of r k = (if nested = [] then None else Some (JObj nested))"
    using nested_diff[of s base loc r k sub] by blast
  from r have "(k \<in> dom (map_of r) \<longleftrightarrow> nested \<noteq> [])
      \<and> (nested \<noteq> [] \<longrightarrow> map_of r k = Some (JObj nested))"
    by (cases "nested = []") (simp_all add: dom_def)
  with n show "\<exists>nested.
             find_orphaned (JObj sub) (sub_mapping base k) (sub_mapping loc k) = Inr nested
             \<and> (k \<in> dom (map_of r) \<longleftrightarrow> nested \<noteq> [])
             \<and> (nested \<noteq> [] \<longrightarrow> map_of r k = Some (JObj nested))" by blast
next
  show "find_orphaned
        (JObj [(''editor'', JObj [(''fontSize'', JInt 14), (''tabSize'', JInt 2)])])
        (JObj [(''editor'', JObj [(''fontSize'', JInt 14)])])
        (JObj [])
      = Inr [(''editor'', JObj [(''tabSize'', JInt 2)])]"
    by (simp add: has_key_def get_or_def)
qed

lemma explained_mapping_when_guarded:
  assumes "sequences_guarded (JObj s) base loc"
    and "distinct (map fst s)"
    and "map_of s k = Some (JObj sub)"
    and "has_key base k \<or> has_key loc k"
  shows "\<exists>r nested.
           find_orphaned (JObj s) base loc = Inr r
           \<and> find_orphaned (JObj sub) (sub_mapping base k) (sub_mapping loc k) = Inr nested
           \<and> map_of r k = (if nested = [] then None else Some (JObj nested))"
proof -
  from assms(1) obtain r where r: "find_orphaned (JObj s) base loc = Inr r"
    using find_orphaned_returns by blast
  from nested_diff[OF r assms(2-4)] r show ?thesis by blast
qed

lemma explained_sequence_if_returned:
  "(\<forall>s base loc r k vs es.
      find_orphaned (JObj s) base loc = Inr r \<and> distinct (map fst s)
        \<and> map_of s k = Some (JArr vs) \<and> (has_key base k \<or> has_key loc k)
        \<and> expected_value base loc k = Some (JArr es)
      \<longrightarrow> (k \<in> dom (map_of r) \<longleftrightarrow> (\<exists>e\<in>set vs. \<forall>x\<in>set es. \<not> py_eq x e))
          \<and> (k \<in> dom (map_of r) \<longrightarrow>
               map_of r k = Some (JArr (filter (\<lambda>e. \<forall>x\<in>set es. \<not> py_eq x e) vs))))
   \<and> find_orphaned
        (JObj [(''exclude'', JArr [JStr ''a'', JStr ''b'', JStr ''c''])])
        (JObj [(''exclude'', JArr [JStr ''a'', JStr ''b'', JStr ''c'', JStr ''d''])])
        (JObj [(''exclude'', JArr [JStr ''a'', JStr ''b''])])
      = Inr [(''exclude'', JArr [JStr ''c''])]"
proof (intro conjI allI impI)
  fix s base loc r k vs es
  assume a: "find_orphaned (JObj s) base loc = Inr r \<and> distinct (map fst s)
        \<and> map_of s k = Some (JArr vs) \<and> (has_key base k \<or> has_key loc k)
        \<and> expected_value base loc k = Some (JArr es)"
  then have r: "map_of r k =
     (if filter (\<lambda>e. \<forall>x\<in>set es. \<not> py_eq x e) vs = [] then None
      else Some (JArr (filter (\<lambda>e. \<forall>x\<in>set es. \<not> py_eq x e) vs)))"
    using array_diff[of s base loc r k vs es] by blast
  show "k \<in> dom (map_of r) \<longleftrightarrow> (\<exists>e\<in>set vs. \<forall>x\<in>set es. \<not> py_eq x e)"
  proof (cases "filter (\<lambda>e. \<forall>x\<in>set es. \<not> py_eq x e) vs = []")
    case True
    with r have "k \<notin> dom (map_of r)" by (simp add: dom_def)
    moreover from True have "\<not> (\<exists>e\<in>set vs. \<forall>x\<in>set es. \<not> py_eq x e)"
      by (simp only: filter_empty_conv) blast
    ultimately show ?thesis by blast
  next
    case False
    with r have "k \<in> dom (map_of r)" by (simp add: dom_def)
    moreover from False have "\<exists>e\<in>set vs. \<forall>x\<in>set es. \<not> py_eq x e"
      by (simp only: filter_empty_conv) blast
    ultimately show ?thesis by blast
  qed
  show "map_of r k = Some (JArr (filter (\<lambda>e. \<forall>x\<in>set es. \<not> py_eq x e) vs))"
    if "k \<in> dom (map_of r)"
    using that r by (cases "filter (\<lambda>e. \<forall>x\<in>set es. \<not> py_eq x e) vs = []") (simp_all add: dom_def)
next
  show "find_orphaned
        (JObj [(''exclude'', JArr [JStr ''a'', JStr ''b'', JStr ''c''])])
        (JObj [(''exclude'', JArr [JStr ''a'', JStr ''b'', JStr ''c'', JStr ''d''])])
        (JObj [(''exclude'', JArr [JStr ''a'', JStr ''b''])])
      = Inr [(''exclude'', JArr [JStr ''c''])]"
    by (simp add: has_key_def get_or_def)
qed

lemma explained_sequence_when_guarded:
  assumes "sequences_guarded (JObj s) base loc"
    and "distinct (map fst s)"
    and "map_of s k = Some (JArr vs)"
    and "has_key base k \<or> has_key loc k"
    and "expected_value base loc k = Some (JArr es)"
  shows "\<exists>r. find_orphaned (JObj s) base loc = Inr r
           \<and> map_of r k =
               (if filter (\<lambda>e. \<forall>x\<in>set es. \<not> py_eq x e) vs = [] then None
                else Some (JArr (filter (\<lambda>e. \<forall>x\<in>set es. \<not> py_eq x e) vs)))"
proof -
  from assms(1) obtain r where r: "find_orphaned (JObj s) base loc = Inr r"
    using find_orphaned_returns by blast
  from array_diff[OF r assms(2-5)] r show ?thesis by blast
qed

text \<open>
  C1. A key of the settings that is a key neither of the base nor of the local document
  belongs in the result with its whole value, and \<^verbatim>\<open>find_orphaned\<close> puts it there when it
  returns. It does not return for every settings mapping: for the settings
  \<^verbatim>\<open>{"x": 5, "k": [1]}\<close>, the base \<^verbatim>\<open>{"k": 5}\<close> and an empty local document the key \<^verbatim>\<open>x\<close> is in
  neither document, and the test \<^verbatim>\<open>1 not in 5\<close> for the key \<^verbatim>\<open>k\<close> raises \<^verbatim>\<open>TypeError\<close>, so that
  there is no result that could include \<^verbatim>\<open>x\<close>.
\<close>

theorem unexplained_key_lost_on_type_mismatch:
  "distinct (map fst [(''x'', JInt 5), (''k'', JArr [JInt 1])])
   \<and> map_of [(''x'', JInt 5), (''k'', JArr [JInt 1])] ''x'' = Some (JInt 5)
   \<and> \<not> has_key (JObj [(''k'', JInt 5)]) ''x''
   \<and> \<not> has_key (JObj []) ''x''
   \<and> find_orphaned (JObj [(''x'', JInt 5), (''k'', JArr [JInt 1])])
         (JObj [(''k'', JInt 5)]) (JObj [])
       = Inl TypeError"
  by (simp add: has_key_def get_or_def)

text \<open>
  C2. A key of the settings that is a key of the base or of the local document and has a
  mapping as its value belongs in the result exactly when the recursive diff of that value is
  not empty, with that diff as its value, and \<^verbatim>\<open>find_orphaned\<close> puts it there when it returns.
  It does not return for every settings mapping: for the settings
  \<^verbatim>\<open>{"editor": {"tabSize": 2}, "k": [1]}\<close>, the base \<^verbatim>\<open>{"editor": {}, "k": 5}\<close> and an empty local
  document the recursive diff for \<^verbatim>\<open>editor\<close> is \<^verbatim>\<open>{"tabSize": 2}\<close>, and the test \<^verbatim>\<open>1 not in 5\<close> for
  the key \<^verbatim>\<open>k\<close> raises \<^verbatim>\<open>TypeError\<close>, so that there is no result that could include \<^verbatim>\<open>editor\<close>.
\<close>

theorem explained_mapping_lost_on_type_mismatch:
  "distinct (map fst [(''editor'', JObj [(''tabSize'', JInt 2)]), (''k'', JArr [JInt 1])])
   \<and> map_of [(''editor'', JObj [(''tabSize'', JInt 2)]), (''k'', JArr [JInt 1])] ''editor''
       = Some (JObj [(''tabSize'', JInt 2)])
   \<and> has_key (JObj [(''editor'', JObj []), (''k'', JInt 5)]) ''editor''
   \<and> find_orphaned (JObj [(''tabSize'', JInt 2)])
         (sub_mapping (JObj [(''editor'', JObj []), (''k'', JInt 5)]) ''editor'')
         (sub_mapping (JObj []) ''editor'')
       = Inr [(''tabSize'', JInt 2)]
   \<and> find_orphaned (JObj [(''editor'', JObj [(''tabSize'', JInt 2)]), (''k'', JArr [JInt 1])])
         (JObj [(''editor'', JObj []), (''k'', JInt 5)]) (JObj [])
       = Inl TypeError"
  by (simp add: has_key_def get_or_def sub_mapping_def lookup_def)

text \<open>
  C3. A key of the settings that is a key of the base or of the local document and has a
  sequence as its value belongs in the result exactly when some element of that sequence is
  equal to no element of the expected sequence, with the list of those elements as its value,
  and \<^verbatim>\<open>find_orphaned\<close> puts it there when it returns and the expected value is a sequence. It
  does not return for every settings mapping: for the settings \<^verbatim>\<open>{"a": [1, 2], "k": [1]}\<close>, the
  base \<^verbatim>\<open>{"a": [1], "k": 5}\<close> and an empty local document the key \<^verbatim>\<open>a\<close> has the expected
  sequence \<^verbatim>\<open>[1]\<close> and the element \<^verbatim>\<open>2\<close> that is not in it, and the test \<^verbatim>\<open>1 not in 5\<close> for the
  key \<^verbatim>\<open>k\<close> raises \<^verbatim>\<open>TypeError\<close>, so that there is no result. And an expected value that is a
  string is searched for substrings: for the settings \<^verbatim>\<open>{"s": ["ab"]}\<close> and the base
  \<^verbatim>\<open>{"s": "xab"}\<close> the result is empty.
\<close>

theorem explained_sequence_lost_on_type_mismatch:
  "distinct (map fst [(''a'', JArr [JInt 1, JInt 2]), (''k'', JArr [JInt 1])])
   \<and> map_of [(''a'', JArr [JInt 1, JInt 2]), (''k'', JArr [JInt 1])] ''a''
       = Some (JArr [JInt 1, JInt 2])
   \<and> has_key (JObj [(''a'', JArr [JInt 1]), (''k'', JInt 5)]) ''a''
   \<and> expected_value (JObj [(''a'', JArr [JInt 1]), (''k'', JInt 5)]) (JObj []) ''a''
       = Some (JArr [JInt 1])
   \<and> py_eq (JInt 1) (JInt 1) \<and> \<not> py_eq (JInt 1) (JInt 2)
   \<and> find_orphaned (JObj [(''a'', JArr [JInt 1, JInt 2]), (''k'', JArr [JInt 1])])
         (JObj [(''a'', JArr [JInt 1]), (''k'', JInt 5)]) (JObj [])
       = Inl TypeError
   \<and> expected_value (JObj [(''s'', JStr ''xab'')]) (JObj []) ''s'' = Some (JStr ''xab'')
   \<and> find_orphaned (JObj [(''s'', JArr [JStr ''ab''])]) (JObj [(''s'', JStr ''xab'')]) (JObj [])
       = Inr []"
  by (simp add: has_key_def get_or_def expected_value_def lookup_def)

text \<open>
  C9. The diff of a document against itself as the base, with an empty local document, is the
  empty mapping.
\<close>

theorem self_diff_is_empty: "wf_json s \<Longrightarrow> find_orphaned s s (JObj []) = Inr []"
  by (rule self_diff)

theorem self_diff_is_empty_witness:
  "wf_json (JObj [(''a'', JObj [(''b'', JArr [JInt 1, JBool True, JObj [(''c'', JNull)]])]),
                  (''d'', JFloat (Finite (3 / 2))), (''e'', JArr [JStr ''x'', JArr [], JFloat NaN])])
   \<and> find_orphaned
        (JObj [(''a'', JObj [(''b'', JArr [JInt 1, JBool True, JObj [(''c'', JNull)]])]),
               (''d'', JFloat (Finite (3 / 2))), (''e'', JArr [JStr ''x'', JArr [], JFloat NaN])])
        (JObj [(''a'', JObj [(''b'', JArr [JInt 1, JBool True, JObj [(''c'', JNull)]])]),
               (''d'', JFloat (Finite (3 / 2))), (''e'', JArr [JStr ''x'', JArr [], JFloat NaN])])
        (JObj []) = Inr []"
proof -
  have h: "wf_json (JObj [(''a'', JObj [(''b'', JArr [JInt 1, JBool True, JObj [(''c'', JNull)]])]),
                  (''d'', JFloat (Finite (3 / 2))), (''e'', JArr [JStr ''x'', JArr [], JFloat NaN])])"
    by simp
  from h self_diff_is_empty[OF h] show ?thesis by blast
qed

text \<open>
  C10. For settings that are not a mapping, \<^verbatim>\<open>find_orphaned\<close> returns the empty mapping, and
  raises nothing, whatever the base and the local document are.
\<close>

theorem non_mapping_settings_give_empty:
  "(\<forall>items. settings \<noteq> JObj items) \<Longrightarrow> find_orphaned settings base loc = Inr []"
  by (cases settings) simp_all

theorem non_mapping_settings_give_empty_witness:
  "(\<forall>items. JArr [JInt 1, JObj [(''k'', JNull)]] \<noteq> JObj items)
   \<and> find_orphaned (JArr [JInt 1, JObj [(''k'', JNull)]]) (JStr ''base'') (JInt 3) = Inr []"
proof -
  have h: "\<forall>items. JArr [JInt 1, JObj [(''k'', JNull)]] \<noteq> JObj items" by simp
  from h non_mapping_settings_give_empty[OF h, of "JStr ''base''" "JInt 3"]
  show ?thesis by blast
qed

section \<open>Properties of \<^verbatim>\<open>parse_jsonc\<close> and \<^verbatim>\<open>main\<close>\<close>

lemma split_lines_not_Nil: "split_lines cs \<noteq> []"
  by (induction cs) (simp_all split: list.splits)

lemma split_lines_Cons:
  "c \<noteq> nl \<Longrightarrow> split_lines (c # cs) = (c # hd (split_lines cs)) # tl (split_lines cs)"
  using split_lines_not_Nil[of cs] by (cases "split_lines cs") simp_all

lemma split_lines_nl: "split_lines (nl # cs) = [] # split_lines cs"
  by simp

lemma join_lines_Cons: "ls \<noteq> [] \<Longrightarrow> join_lines (l # ls) = l @ nl # join_lines ls"
  by (cases ls) simp_all

lemma join_split: "join_lines (split_lines cs) = cs"
proof (induction cs)
  case Nil
  show ?case by simp
next
  case (Cons c cs)
  obtain l ls where s: "split_lines cs = l # ls"
    using split_lines_not_Nil[of cs] by (cases "split_lines cs") auto
  with Cons show ?case by (cases ls) (auto simp: join_lines_Cons)
qed

lemma split_dropWhile:
  "split_lines (dropWhile (\<lambda>x. x \<noteq> nl) cs) = [] # tl (split_lines cs)"
proof (induction cs)
  case Nil
  show ?case by simp
next
  case (Cons c cs)
  show ?case
  proof (cases "c = nl")
    case True
    then show ?thesis by simp
  next
    case False
    with Cons show ?thesis by (simp add: split_lines_Cons del: split_lines.simps)
  qed
qed

lemma hd_split_lines_Cons:
  "d \<noteq> nl \<Longrightarrow> hd (split_lines (d # cs)) = d # hd (split_lines cs)"
  by (simp add: split_lines_Cons del: split_lines.simps)

lemma join_map_Cons:
  "join_lines (map f (l # ls)) = (if ls = [] then f l else f l @ nl # join_lines (map f ls))"
  by (cases ls) simp_all

lemma sub_line_comments_spec: "sub_line_comments s = remove_line_comments s"
  unfolding remove_line_comments_def
proof (induction s rule: sub_line_comments.induct)
  case 1
  show ?case by simp
next
  case (2 c)
  show ?case by simp
next
  case (3 c d cs)
  show ?case
  proof (cases "c = CHR ''/'' \<and> d = CHR ''/''")
    case True
    then have cn: "c \<noteq> nl" and dn: "d \<noteq> nl" by (simp_all add: nl_def)
    have sp: "split_lines (c # d # cs) = (c # d # hd (split_lines cs)) # tl (split_lines cs)"
      using cn dn by (simp add: split_lines_Cons del: split_lines.simps)
    have "sub_line_comments (c # d # cs) = sub_line_comments (dropWhile (\<lambda>x. x \<noteq> nl) cs)"
      using True by simp
    also have "\<dots> = join_lines (map before_comment ([] # tl (split_lines cs)))"
      using "3.IH"(1)[OF True] by (simp only: split_dropWhile)
    also have "\<dots> = join_lines (map before_comment (split_lines (c # d # cs)))"
    proof -
      have "before_comment (c # d # hd (split_lines cs)) = before_comment []"
        using True by simp
      then show ?thesis by (simp only: sp join_map_Cons)
    qed
    finally show ?thesis .
  next
    case False
    have ih: "sub_line_comments (d # cs) = join_lines (map before_comment (split_lines (d # cs)))"
      using "3.IH"(2)[OF False] .
    have step: "sub_line_comments (c # d # cs) = c # sub_line_comments (d # cs)"
      by (simp only: sub_line_comments.simps False if_False)
    show ?thesis
    proof (cases "c = nl")
      case True
      have ne: "split_lines (d # cs) \<noteq> []" by (rule split_lines_not_Nil)
      have "join_lines (map before_comment (split_lines (c # d # cs)))
          = join_lines (map before_comment ([] # split_lines (d # cs)))"
        by (simp only: True split_lines_nl)
      also have "\<dots> = before_comment [] @ nl # join_lines (map before_comment (split_lines (d # cs)))"
        using ne by (simp only: join_map_Cons if_False)
      also have "\<dots> = c # sub_line_comments (d # cs)"
        by (simp only: ih True before_comment.simps append_Nil)
      finally show ?thesis by (simp only: step)
    next
      case cn: False
      have sp: "split_lines (c # d # cs)
          = (c # hd (split_lines (d # cs))) # tl (split_lines (d # cs))"
        using cn by (rule split_lines_Cons)
      have dec: "split_lines (d # cs) = hd (split_lines (d # cs)) # tl (split_lines (d # cs))"
        using split_lines_not_Nil[of "d # cs"] by simp
      have bc: "before_comment (c # hd (split_lines (d # cs)))
          = c # before_comment (hd (split_lines (d # cs)))"
      proof (cases "d = nl")
        case True
        then show ?thesis by simp
      next
        case dn: False
        show ?thesis using False by (simp only: hd_split_lines_Cons[OF dn]) simp
      qed
      have "join_lines (map before_comment (split_lines (c # d # cs)))
          = c # join_lines (map before_comment
                (hd (split_lines (d # cs)) # tl (split_lines (d # cs))))"
        by (simp only: sp join_map_Cons bc append_Cons if_distrib[of "(#) c"] if_cancel)
      then show ?thesis by (simp only: step ih dec[symmetric])
    qed
  qed
qed

lemma remove_trailing_commas_append:
  "\<forall>c\<in>set ws. c \<noteq> CHR '','' \<Longrightarrow>
   remove_trailing_commas (ws @ rest) = ws @ remove_trailing_commas rest"
  by (induction ws) simp_all

lemma space_not_comma: "is_space c \<Longrightarrow> c \<noteq> CHR '',''"
  by (auto simp: is_space_def)

lemma closing_not_comma: "is_closing c \<Longrightarrow> c \<noteq> CHR '',''"
  by (auto simp: is_closing_def)

lemma sub_trailing_commas_spec: "sub_trailing_commas s = remove_trailing_commas s"
proof (induction s rule: sub_trailing_commas.induct)
  case 1
  show ?case by simp
next
  case (2 c cs)
  show ?case
  proof (cases "c = CHR '',''")
    case False
    with "2.IH"(4) show ?thesis by simp
  next
    case True
    show ?thesis
    proof (cases "dropWhile is_space cs")
      case Nil
      with True "2.IH"(1) show ?thesis
        by (simp add: before_closing_def del: dropWhile_eq_Nil_conv)
    next
      case (Cons b after)
      show ?thesis
      proof (cases "is_closing b")
        case False
        with True Cons "2.IH"(3) show ?thesis by (simp add: before_closing_def)
      next
        case cl: True
        have cs: "cs = takeWhile is_space cs @ b # after"
          using Cons takeWhile_dropWhile_id[of is_space cs] by simp
        have ws: "\<forall>x\<in>set (takeWhile is_space cs). x \<noteq> CHR '',''"
          by (auto dest: set_takeWhileD space_not_comma)
        have "remove_trailing_commas cs
            = takeWhile is_space cs @ remove_trailing_commas (b # after)"
          using remove_trailing_commas_append[OF ws, of "b # after"] cs by simp
        also have "\<dots> = takeWhile is_space cs @ b # remove_trailing_commas after"
          using closing_not_comma[OF cl] by simp
        finally have r: "remove_trailing_commas cs
            = takeWhile is_space cs @ b # remove_trailing_commas after" .
        have "sub_trailing_commas (c # cs)
            = takeWhile is_space cs @ b # sub_trailing_commas after"
          using True Cons cl by simp
        also have "\<dots> = takeWhile is_space cs @ b # remove_trailing_commas after"
          using "2.IH"(2)[OF True Cons cl] by simp
        finally show ?thesis
          using True Cons cl r by (simp add: before_closing_def)
      qed
    qed
  qed
qed

lemma parse_jsonc_missing: "\<not> path_exists w p \<Longrightarrow> parse_jsonc w p = Inr (JObj [])"
  by (simp add: parse_jsonc_def)

lemma parse_jsonc_present:
  "path_exists w p \<Longrightarrow> read_text w p = Inr t \<Longrightarrow>
   parse_jsonc w p = loads w (remove_trailing_commas (remove_line_comments t))"
  by (simp add: parse_jsonc_def sub_line_comments_spec sub_trailing_commas_spec)

lemma jsonc_example_clean:
  "remove_trailing_commas (remove_line_comments jsonc_example) = jsonc_example_cleaned"
  by (simp add: remove_line_comments_def jsonc_example_def jsonc_example_cleaned_def nl_def
      dquote_def before_closing_def is_space_def is_closing_def)

text \<open>
  C5. \<^verbatim>\<open>parse_jsonc\<close> returns the empty mapping for a file that does not exist. For a file that
  exists and can be read it returns what \<^verbatim>\<open>json.loads\<close> makes of the text with every line cut off
  at its first \<^verbatim>\<open>//\<close> and, after that, every comma dropped that has only whitespace between
  itself and a closing brace or bracket. The text of the example is cleaned to \<^verbatim>\<open>{ "a": 1\<close>, a
  space, a newline and \<^verbatim>\<open> }\<close>, so that the example is parsed to \<^verbatim>\<open>{"a": 1}\<close> when \<^verbatim>\<open>json.loads\<close>
  reads that JSON text as \<^verbatim>\<open>{"a": 1}\<close>.
\<close>

theorem parse_jsonc_behaviour:
  "(\<not> path_exists w p \<longrightarrow> parse_jsonc w p = Inr (JObj []))
   \<and> (\<forall>t. path_exists w p \<and> read_text w p = Inr t \<longrightarrow>
          parse_jsonc w p = loads w (remove_trailing_commas (remove_line_comments t)))
   \<and> remove_trailing_commas (remove_line_comments jsonc_example) = jsonc_example_cleaned
   \<and> (path_exists w p \<and> read_text w p = Inr jsonc_example
        \<and> loads w jsonc_example_cleaned = Inr (JObj [(''a'', JInt 1)])
      \<longrightarrow> parse_jsonc w p = Inr (JObj [(''a'', JInt 1)]))"
proof (intro conjI allI impI)
  assume "\<not> path_exists w p"
  then show "parse_jsonc w p = Inr (JObj [])" by (rule parse_jsonc_missing)
next
  fix t assume "path_exists w p \<and> read_text w p = Inr t"
  then show "parse_jsonc w p = loads w (remove_trailing_commas (remove_line_comments t))"
    by (simp add: parse_jsonc_present)
next
  show "remove_trailing_commas (remove_line_comments jsonc_example) = jsonc_example_cleaned"
    by (rule jsonc_example_clean)
next
  assume a: "path_exists w p \<and> read_text w p = Inr jsonc_example
        \<and> loads w jsonc_example_cleaned = Inr (JObj [(''a'', JInt 1)])"
  then have "parse_jsonc w p = loads w (remove_trailing_commas (remove_line_comments jsonc_example))"
    by (simp add: parse_jsonc_present)
  with a show "parse_jsonc w p = Inr (JObj [(''a'', JInt 1)])"
    by (simp only: jsonc_example_clean)
qed

theorem parse_jsonc_behaviour_witness:
  "path_exists example_world ''/z/settings.base.jsonc''
   \<and> read_text example_world ''/z/settings.base.jsonc'' = Inr jsonc_example
   \<and> loads example_world jsonc_example_cleaned = Inr (JObj [(''a'', JInt 1)])
   \<and> parse_jsonc example_world ''/z/settings.base.jsonc'' = Inr (JObj [(''a'', JInt 1)])
   \<and> \<not> path_exists example_world ''/z/settings.local.jsonc''
   \<and> parse_jsonc example_world ''/z/settings.local.jsonc'' = Inr (JObj [])"
proof -
  have h: "path_exists example_world ''/z/settings.base.jsonc''
   \<and> read_text example_world ''/z/settings.base.jsonc'' = Inr jsonc_example
   \<and> loads example_world jsonc_example_cleaned = Inr (JObj [(''a'', JInt 1)])"
    by (simp add: example_world_def)
  have n: "\<not> path_exists example_world ''/z/settings.local.jsonc''"
    by (simp add: example_world_def)
  from parse_jsonc_behaviour[of example_world "''/z/settings.base.jsonc''"] h
  have a: "parse_jsonc example_world ''/z/settings.base.jsonc'' = Inr (JObj [(''a'', JInt 1)])"
    by blast
  from parse_jsonc_behaviour[of example_world "''/z/settings.local.jsonc''"] n
  have b: "parse_jsonc example_world ''/z/settings.local.jsonc'' = Inr (JObj [])"
    by blast
  from h n a b show ?thesis by blast
qed

text \<open>
  C6. When \<^verbatim>\<open>settings.json\<close> does not exist beside the script, the process writes the message
  \<^verbatim>\<open>Error: <path> not found\<close> to standard error, writes nothing to standard output and exits with
  status 1.
\<close>

theorem missing_settings_is_an_error:
  "\<not> path_exists w (child w ''settings.json'') \<Longrightarrow>
     stdout (main w) = []
     \<and> stderr (main w) = ''Error: '' @ child w ''settings.json'' @ '' not found'' @ [nl]
     \<and> status (main w) = Exit 1
     \<and> exit_status (status (main w)) = 1"
  by (simp add: main_def exit_status_def)

theorem missing_settings_is_an_error_witness:
  "\<not> path_exists example_world (child example_world ''settings.json'')
   \<and> stdout (main example_world) = []
   \<and> stderr (main example_world) = ''Error: /z/settings.json not found'' @ [nl]
   \<and> status (main example_world) = Exit 1"
proof -
  have h: "\<not> path_exists example_world (child example_world ''settings.json'')"
    by (simp add: example_world_def)
  have c: "child example_world ''settings.json'' = ''/z/settings.json''"
    by (simp add: example_world_def)
  from missing_settings_is_an_error[OF h] h show ?thesis
    by (simp only: c) simp
qed

lemma main_reports:
  assumes "path_exists w (child w ''settings.json'')"
    and "parse_jsonc w (child w ''settings.base.jsonc'') = Inr base"
    and "parse_jsonc w (child w ''settings.local.jsonc'') = Inr loc"
    and "parse_jsonc w (child w ''settings.json'') = Inr settings"
    and "find_orphaned settings base loc = Inr orphaned"
  shows "main w =
     (if orphaned \<noteq> [] then
        \<lparr>stdout = dumps w (JObj orphaned) 2 @ [nl], stderr = [], status = Exit 0\<rparr>
      else
        \<lparr>stdout = ''No orphaned settings found.'' @ [nl], stderr = [], status = Exit 0\<rparr>)"
  using assms by (simp add: main_def)

lemma main_diff_raises:
  assumes "path_exists w (child w ''settings.json'')"
    and "parse_jsonc w (child w ''settings.base.jsonc'') = Inr base"
    and "parse_jsonc w (child w ''settings.local.jsonc'') = Inr loc"
    and "parse_jsonc w (child w ''settings.json'') = Inr settings"
    and "find_orphaned settings base loc = Inl e"
  shows "main w = uncaught w e"
  using assms by (simp add: main_def)

text \<open>
  C7. When the three documents are there and the diff returns, the process prints the orphan
  mapping with \<^verbatim>\<open>json.dumps(orphaned, indent=2)\<close> when it is not empty and the line
  \<^verbatim>\<open>No orphaned settings found.\<close> when it is, and ends with status 0 (\<open>main_reports\<close>). But the
  diff does not return on every run whose inputs parse: with \<^verbatim>\<open>{"k": [1]}\<close> as the settings and
  \<^verbatim>\<open>{"k": 5}\<close> as the base, the test \<^verbatim>\<open>1 not in 5\<close> raises \<^verbatim>\<open>TypeError\<close>, nothing catches it, nothing
  is printed and the status is 1.
\<close>

theorem type_mismatch_run_crashes:
  "path_exists crash_world (child crash_world ''settings.json'')
   \<and> parse_jsonc crash_world (child crash_world ''settings.base.jsonc'')
       = Inr (JObj [(''k'', JInt 5)])
   \<and> parse_jsonc crash_world (child crash_world ''settings.local.jsonc'') = Inr (JObj [])
   \<and> parse_jsonc crash_world (child crash_world ''settings.json'')
       = Inr (JObj [(''k'', JArr [JInt 1])])
   \<and> find_orphaned (JObj [(''k'', JArr [JInt 1])]) (JObj [(''k'', JInt 5)]) (JObj [])
       = Inl TypeError
   \<and> status (main crash_world) = Uncaught TypeError
   \<and> exit_status (status (main crash_world)) = 1
   \<and> stdout (main crash_world) = []"
proof -
  have e: "path_exists crash_world (child crash_world ''settings.json'')"
    by (simp add: crash_world_def)
  have b: "parse_jsonc crash_world (child crash_world ''settings.base.jsonc'')
       = Inr (JObj [(''k'', JInt 5)])"
    by (simp add: crash_world_def parse_jsonc_def crash_base_text_def crash_settings_text_def
        dquote_def is_space_def is_closing_def)
  have l: "parse_jsonc crash_world (child crash_world ''settings.local.jsonc'') = Inr (JObj [])"
    by (simp add: crash_world_def parse_jsonc_def)
  have s: "parse_jsonc crash_world (child crash_world ''settings.json'')
       = Inr (JObj [(''k'', JArr [JInt 1])])"
    by (simp add: crash_world_def parse_jsonc_def crash_base_text_def crash_settings_text_def
        dquote_def is_space_def is_closing_def)
  have f: "find_orphaned (JObj [(''k'', JArr [JInt 1])]) (JObj [(''k'', JInt 5)]) (JObj [])
       = Inl TypeError"
    by (simp add: has_key_def get_or_def)
  have m: "main crash_world = uncaught crash_world TypeError"
    using e b l s f by (rule main_diff_raises)
  from e b l s f show ?thesis
    by (simp add: m uncaught_def exit_status_def)
qed

section \<open>Properties of \<^verbatim>\<open>regex-escape.py\<close>\<close>

lemma replace_char_append:
  "replace_char old new (a @ b) = replace_char old new a @ replace_char old new b"
  by (simp add: replace_char_def)

lemma slash_not_special: "CHR ''/'' \<notin> set re_special"
  by (simp add: re_special_def bslash_def)

lemma replace_escape_char:
  "replace_char (CHR ''/'') [bslash, CHR ''/''] (escape_char c) = escape_slash_char c"
proof (cases "c = CHR ''/''")
  case True
  then show ?thesis
    using slash_not_special by (simp add: replace_char_def escape_char_def escape_slash_char_def)
next
  case False
  then show ?thesis
    by (simp add: replace_char_def escape_char_def escape_slash_char_def bslash_def)
qed

lemma replace_re_escape:
  "replace_char (CHR ''/'') [bslash, CHR ''/''] (re_escape s) = concat (map escape_slash_char s)"
  by (induction s) (simp_all add: re_escape_def replace_char_append replace_escape_char,
      simp add: replace_char_def)

lemma escape_line_chars: "escape_line line = concat (map escape_slash_char (rstrip line))"
  by (simp add: escape_line_def replace_re_escape)

lemma slash_not_space: "\<not> is_space (CHR ''/'')"
  by (simp add: is_space_def)

lemma count_dropWhile_space:
  "count_list (dropWhile is_space xs) (CHR ''/'') = count_list xs (CHR ''/'')"
  using slash_not_space by (induction xs) auto

lemma count_list_rev: "count_list (rev xs) y = count_list xs y"
  by (induction xs) simp_all

lemma count_rstrip: "count_list (rstrip line) (CHR ''/'') = count_list line (CHR ''/'')"
  by (simp add: rstrip_def count_list_rev count_dropWhile_space)

lemma count_escape_slash_char:
  "count_list (escape_slash_char c) (CHR ''/'') = (if c = CHR ''/'' then 1 else 0)"
  by (simp add: escape_slash_char_def escape_char_def bslash_def)

lemma count_list_append: "count_list (xs @ ys) y = count_list xs y + count_list ys y"
  by (induction xs) simp_all

lemma count_concat_escape:
  "count_list (concat (map escape_slash_char s)) (CHR ''/'') = count_list s (CHR ''/'')"
  by (induction s) (simp_all add: count_list_append count_escape_slash_char)

lemma special_not_alnum: "c \<in> set re_special \<Longrightarrow> \<not> is_ascii_alnum c"
  by (auto simp: re_special_def is_ascii_alnum_def bslash_def)

lemma slash_not_alnum: "\<not> is_ascii_alnum (CHR ''/'')"
  by (simp add: is_ascii_alnum_def)

lemma meta_special: "c \<in> set re_meta \<Longrightarrow> c \<in> set re_special"
  by (auto simp: re_meta_def re_special_def)

lemma bslash_special: "bslash \<in> set re_special"
  by (simp add: re_special_def)

lemma re_literal_escaped:
  "\<not> is_ascii_alnum c \<Longrightarrow> re_literal (bslash # c # rest) = map_option ((#) c) (re_literal rest)"
  by simp

lemma re_literal_plain:
  assumes "c \<notin> set re_meta" and "c \<noteq> bslash" and "re_literal rest = Some s"
  shows "re_literal (c # rest) = Some (c # s)"
proof (cases rest)
  case Nil
  with assms show ?thesis by simp
next
  case (Cons d ds)
  with assms show ?thesis by simp
qed

lemma re_literal_escape_slash:
  "re_literal rest = Some s \<Longrightarrow> re_literal (escape_slash_char c @ rest) = Some (c # s)"
proof (cases "c = CHR ''/''")
  case True
  assume "re_literal rest = Some s"
  then show ?thesis
    using True slash_not_alnum by (simp add: escape_slash_char_def)
next
  case False
  assume r: "re_literal rest = Some s"
  show ?thesis
  proof (cases "c \<in> set re_special")
    case True
    then have "\<not> is_ascii_alnum c" by (rule special_not_alnum)
    with r True False show ?thesis
      by (simp add: escape_slash_char_def escape_char_def)
  next
    case ns: False
    then have "c \<notin> set re_meta" "c \<noteq> bslash"
      using meta_special bslash_special by auto
    then have "re_literal (c # rest) = Some (c # s)" using r by (rule re_literal_plain)
    with ns False show ?thesis by (simp add: escape_slash_char_def escape_char_def)
  qed
qed

lemma re_literal_concat: "re_literal (concat (map escape_slash_char s)) = Some s"
  by (induction s) (simp_all add: re_literal_escape_slash)

lemma re_literal_escape_line: "re_literal (escape_line line) = Some (rstrip line)"
  by (simp add: escape_line_chars re_literal_concat)

lemma slash_after_backslash:
  "concat (map escape_slash_char s) = pre @ CHR ''/'' # post \<Longrightarrow>
   pre \<noteq> [] \<and> last pre = bslash"
proof (induction s arbitrary: pre)
  case Nil
  then show ?case by simp
next
  case (Cons c s)
  show ?case
  proof (cases "c = CHR ''/'' \<or> c \<in> set re_special")
    case True
    then have e: "escape_slash_char c = [bslash, c]"
      by (auto simp: escape_slash_char_def escape_char_def)
    from Cons.prems have eq: "bslash # c # concat (map escape_slash_char s) = pre @ CHR ''/'' # post"
      by (simp add: e)
    show ?thesis
    proof (cases pre)
      case Nil
      with eq show ?thesis by (simp add: bslash_def)
    next
      case (Cons p pre')
      note P = this
      show ?thesis
      proof (cases pre')
        case Nil
        with eq P show ?thesis by simp
      next
        case (Cons q pre'')
        with eq P have "concat (map escape_slash_char s) = pre'' @ CHR ''/'' # post" by simp
        then have "pre'' \<noteq> [] \<and> last pre'' = bslash" by (rule Cons.IH)
        with P Cons show ?thesis by simp
      qed
    qed
  next
    case False
    then have e: "escape_slash_char c = [c]" and ne: "c \<noteq> CHR ''/''"
      by (auto simp: escape_slash_char_def escape_char_def)
    from Cons.prems have eq: "c # concat (map escape_slash_char s) = pre @ CHR ''/'' # post"
      by (simp add: e)
    show ?thesis
    proof (cases pre)
      case Nil
      with eq ne show ?thesis by simp
    next
      case (Cons p pre')
      with eq have "concat (map escape_slash_char s) = pre' @ CHR ''/'' # post" by simp
      then have "pre' \<noteq> [] \<and> last pre' = bslash" by (rule Cons.IH)
      with Cons show ?thesis by simp
    qed
  qed
qed

text \<open>
  C8. The output for a line is the line without its trailing whitespace, character by
  character, with every \<^verbatim>\<open>/\<close> replaced by \<^verbatim>\<open>\/\<close> and every other character replaced by what
  \<^verbatim>\<open>re.escape\<close> makes of it. Stripping removes no \<^verbatim>\<open>/\<close>, so the output has as many \<^verbatim>\<open>/\<close> as the
  line, and each of them stands directly behind a backslash. The line \<^verbatim>\<open>a/b\<close> gives \<^verbatim>\<open>a\/b\<close>.
\<close>

theorem every_slash_is_escaped:
  "escape_line line = concat (map escape_slash_char (rstrip line))
   \<and> count_list (rstrip line) (CHR ''/'') = count_list line (CHR ''/'')
   \<and> count_list (escape_line line) (CHR ''/'') = count_list line (CHR ''/'')
   \<and> (\<forall>pre post. escape_line line = pre @ CHR ''/'' # post \<longrightarrow> pre \<noteq> [] \<and> last pre = bslash)
   \<and> escape_line (''a/b'' @ [nl]) = ''a'' @ [bslash] @ ''/b''"
proof (intro conjI allI impI)
  show "escape_line line = concat (map escape_slash_char (rstrip line))"
    by (rule escape_line_chars)
  show "count_list (rstrip line) (CHR ''/'') = count_list line (CHR ''/'')"
    by (rule count_rstrip)
  show "count_list (escape_line line) (CHR ''/'') = count_list line (CHR ''/'')"
    by (simp only: escape_line_chars count_concat_escape count_rstrip)
  have behind: "pre \<noteq> [] \<and> last pre = bslash"
    if "escape_line line = pre @ CHR ''/'' # post" for pre post
  proof -
    from that have "concat (map escape_slash_char (rstrip line)) = pre @ CHR ''/'' # post"
      by (simp only: escape_line_chars)
    then show ?thesis by (rule slash_after_backslash)
  qed
  show "pre \<noteq> []" if "escape_line line = pre @ CHR ''/'' # post" for pre post
    using behind[OF that] by (rule conjunct1)
  show "last pre = bslash" if "escape_line line = pre @ CHR ''/'' # post" for pre post
    using behind[OF that] by (rule conjunct2)
  show "escape_line (''a/b'' @ [nl]) = ''a'' @ [bslash] @ ''/b''"
    by (simp add: escape_line_def rstrip_def is_space_def nl_def re_escape_def escape_char_def
        re_special_def replace_char_def bslash_def)
qed

theorem every_slash_is_escaped_witness:
  "escape_line (''x/y/ '' @ [nl]) = ''x'' @ [bslash] @ ''/y'' @ [bslash] @ ''/''
   \<and> escape_line (''x/y/ '' @ [nl]) = (''x'' @ [bslash] @ ''/y'' @ [bslash]) @ CHR ''/'' # []
   \<and> ''x'' @ [bslash] @ ''/y'' @ [bslash] \<noteq> []
   \<and> last (''x'' @ [bslash] @ ''/y'' @ [bslash]) = bslash"
proof -
  have v: "escape_line (''x/y/ '' @ [nl]) = ''x'' @ [bslash] @ ''/y'' @ [bslash] @ ''/''"
    by (simp add: escape_line_def rstrip_def is_space_def nl_def re_escape_def escape_char_def
        re_special_def replace_char_def bslash_def)
  then have h: "escape_line (''x/y/ '' @ [nl])
      = (''x'' @ [bslash] @ ''/y'' @ [bslash]) @ CHR ''/'' # []"
    by simp
  from every_slash_is_escaped[of "''x/y/ '' @ [nl]"] h
  have "''x'' @ [bslash] @ ''/y'' @ [bslash] \<noteq> []
      \<and> last (''x'' @ [bslash] @ ''/y'' @ [bslash]) = bslash"
    by blast
  with v h show ?thesis by blast
qed

text \<open>
  C4, as stated, fails for a line that ends in whitespace other than a newline: for the line
  \<^verbatim>\<open>a\<close> followed by a space the output is \<^verbatim>\<open>a\<close>, which matches the text \<^verbatim>\<open>a\<close> and not the line.
\<close>

theorem trailing_space_counterexample:
  "last ''a '' \<noteq> nl
   \<and> escape_line ''a '' = ''a''
   \<and> re_literal (escape_line ''a '') = Some ''a''
   \<and> re_literal (escape_line ''a '') \<noteq> Some ''a ''"
  by (simp add: escape_line_def rstrip_def is_space_def nl_def re_escape_def escape_char_def
      re_special_def replace_char_def bslash_def re_meta_def)

text \<open>
  C4, amended. The output for a line is a pattern of literals that matches exactly the line
  without its trailing whitespace; it matches exactly the line when the line has no trailing
  whitespace. The line \<^verbatim>\<open>a.b*c\<close> gives \<^verbatim>\<open>a\.b\*c\<close>.
\<close>

theorem escaped_line_matches_stripped_line:
  "re_literal (escape_line line) = Some (rstrip line)
   \<and> (rstrip line = line \<longrightarrow> re_literal (escape_line line) = Some line)
   \<and> escape_line ''a.b*c'' = ''a'' @ [bslash] @ ''.b'' @ [bslash] @ ''*c''"
proof (intro conjI impI)
  show "re_literal (escape_line line) = Some (rstrip line)"
    by (rule re_literal_escape_line)
  show "re_literal (escape_line line) = Some line" if "rstrip line = line"
    using re_literal_escape_line[of line] that by simp
  show "escape_line ''a.b*c'' = ''a'' @ [bslash] @ ''.b'' @ [bslash] @ ''*c''"
    by (simp add: escape_line_def rstrip_def is_space_def re_escape_def escape_char_def
        re_special_def replace_char_def bslash_def)
qed

theorem escaped_line_matches_stripped_line_witness:
  "rstrip ''a.b*c'' = ''a.b*c'' \<and> re_literal (escape_line ''a.b*c'') = Some ''a.b*c''"
proof -
  have h: "rstrip ''a.b*c'' = ''a.b*c''"
    by (simp add: rstrip_def is_space_def)
  from escaped_line_matches_stripped_line[of "''a.b*c''"] h
  have "re_literal (escape_line ''a.b*c'') = Some ''a.b*c''" by blast
  with h show ?thesis by blast
qed

end
